theory Spec2Isabelle
  imports Complex_Main "HOL-Library.Sublist"
begin

section \<open>Characters and Python's character classes\<close>

text \<open>
  A Python \<open>str\<close> is a sequence of code points. The embedding takes \<^typ>\<open>string\<close>,
  reading a \<^typ>\<open>char\<close> as a code point below 256 (the Latin-1 block of Unicode), so
  \<open>len\<close> is \<^const>\<open>length\<close>. The classes below follow Python 3's tables for \<open>str\<close>
  patterns on that range.
\<close>

definition code :: "char \<Rightarrow> nat" where
  "code c = of_char c"

text \<open>\<open>str.isspace\<close>, which is also the class \<open>\s\<close> and what \<open>str.split()\<close> splits on.\<close>

definition is_space :: "char \<Rightarrow> bool" where
  "is_space c \<longleftrightarrow>
     (9 \<le> code c \<and> code c \<le> 13) \<or> (28 \<le> code c \<and> code c \<le> 32)
     \<or> code c = 133 \<or> code c = 160"

text \<open>The class \<open>[a-zA-Z]\<close>.\<close>

definition is_ascii_letter :: "char \<Rightarrow> bool" where
  "is_ascii_letter c \<longleftrightarrow> (65 \<le> code c \<and> code c \<le> 90) \<or> (97 \<le> code c \<and> code c \<le> 122)"

text \<open>The class \<open>[a-z]\<close>.\<close>

definition is_lower_letter :: "char \<Rightarrow> bool" where
  "is_lower_letter c \<longleftrightarrow> 97 \<le> code c \<and> code c \<le> 122"

text \<open>The class \<open>\w\<close>: alphanumeric code points and the underscore.\<close>

definition is_word :: "char \<Rightarrow> bool" where
  "is_word c \<longleftrightarrow>
     is_ascii_letter c \<or> (48 \<le> code c \<and> code c \<le> 57) \<or> code c = 95
     \<or> code c = 170 \<or> code c = 178 \<or> code c = 179 \<or> code c = 181 \<or> code c = 185
     \<or> code c = 186 \<or> (188 \<le> code c \<and> code c \<le> 190)
     \<or> (192 \<le> code c \<and> code c \<le> 214) \<or> (216 \<le> code c \<and> code c \<le> 246)
     \<or> (248 \<le> code c \<and> code c \<le> 255)"

text \<open>\<open>str.lower\<close> on one code point.\<close>

definition lower_char :: "char \<Rightarrow> char" where
  "lower_char c =
     (if (65 \<le> code c \<and> code c \<le> 90) \<or> (192 \<le> code c \<and> code c \<le> 222 \<and> code c \<noteq> 215)
      then char_of (code c + 32) else c)"

definition lower :: "string \<Rightarrow> string" where
  "lower s = map lower_char s"

section \<open>The fragment of Python's \<open>re\<close> that the program uses\<close>

text \<open>
  Single-character classes: \<open>.\<close> (anything but a newline), \<open>\w\<close>, \<open>[^\s]\<close>, \<open>[^a-zA-Z]\<close>
  and one given character.
\<close>

datatype cclass = Dot | Word | NotSpace | NotLetter | Chr char

fun in_class :: "cclass \<Rightarrow> char \<Rightarrow> bool" where
  "in_class Dot c = (c \<noteq> CHR 0x0A)"
| "in_class Word c = is_word c"
| "in_class NotSpace c = (\<not> is_space c)"
| "in_class NotLetter c = (\<not> is_ascii_letter c)"
| "in_class (Chr d) c = (c = d)"

text \<open>
  Patterns. \<open>Star X\<close> is \<open>X*\<close> and \<open>Plus X\<close> is \<open>X+\<close> for a class \<open>X\<close>;
  \<open>GroupRep X n\<close> is \<open>(X)\1{n,}\<close>: one character of the class, captured, followed by
  at least \<open>n\<close> more copies of that same character.
\<close>

datatype regex =
    Lit string
  | Cls cclass
  | Seq regex regex
  | Alt regex regex
  | Opt regex
  | Star cclass
  | Plus cclass
  | GroupRep cclass nat

text \<open>
  The backtracking matcher: \<open>rmatch r s\<close> lists, in the order in which Python's engine
  tries them, the remainders of \<open>s\<close> after each way of matching \<open>r\<close> at the start of \<open>s\<close>.
  Alternatives are tried left to right, and the quantifiers are greedy (longest first).
\<close>

definition greedy :: "nat \<Rightarrow> nat \<Rightarrow> string \<Rightarrow> string list" where
  "greedy lo hi s = map (\<lambda>i. drop i s) (rev [lo..<Suc hi])"

fun rmatch :: "regex \<Rightarrow> string \<Rightarrow> string list" where
  "rmatch (Lit l) s = (if prefix l s then [drop (length l) s] else [])"
| "rmatch (Cls X) s = (case s of [] \<Rightarrow> [] | c # cs \<Rightarrow> if in_class X c then [cs] else [])"
| "rmatch (Seq a b) s = concat (map (rmatch b) (rmatch a s))"
| "rmatch (Alt a b) s = rmatch a s @ rmatch b s"
| "rmatch (Opt a) s = rmatch a s @ [s]"
| "rmatch (Star X) s = greedy 0 (length (takeWhile (in_class X) s)) s"
| "rmatch (Plus X) s = greedy 1 (length (takeWhile (in_class X) s)) s"
| "rmatch (GroupRep X n) s =
     (case s of [] \<Rightarrow> []
      | c # cs \<Rightarrow> if in_class X c then greedy n (length (takeWhile (\<lambda>d. d = c) cs)) cs else [])"

text \<open>Whether a pattern can match the empty text.\<close>

fun nullable :: "regex \<Rightarrow> bool" where
  "nullable (Lit l) = (l = [])"
| "nullable (Cls X) = False"
| "nullable (Seq a b) = (nullable a \<and> nullable b)"
| "nullable (Alt a b) = (nullable a \<or> nullable b)"
| "nullable (Opt a) = True"
| "nullable (Star X) = True"
| "nullable (Plus X) = False"
| "nullable (GroupRep X n) = False"

text \<open>The match Python reports at the start of \<open>s\<close>: the first one found.\<close>

definition re_match :: "regex \<Rightarrow> string \<Rightarrow> string option" where
  "re_match r s = (case rmatch r s of [] \<Rightarrow> None | rest # _ \<Rightarrow> Some rest)"

text \<open>
  Scanning, as \<open>re.findall\<close> and \<open>re.sub\<close> do it: at each position the pattern is tried;
  a match is consumed whole and the scan resumes behind it, otherwise one character is
  passed over. None of the program's patterns matches the empty string (lemma
  \<open>patterns_not_nullable\<close>), and the scan treats an empty match as no match.

  \<open>re_findall\<close> returns the matched texts. For a pattern with one group Python returns the
  texts of the group instead; the program only takes the length of the list, which is the
  number of matches either way.
\<close>

function re_findall :: "regex \<Rightarrow> string \<Rightarrow> string list" where
  "re_findall r [] = []"
| "re_findall r (c # cs) =
     (case re_match r (c # cs) of
        None \<Rightarrow> re_findall r cs
      | Some rest \<Rightarrow>
          if length rest < length (c # cs)
          then take (length (c # cs) - length rest) (c # cs) # re_findall r rest
          else re_findall r cs)"
  by pat_completeness auto
termination
  by (relation "measure (\<lambda>(r, s). length s)") auto

text \<open>\<open>re.sub\<close> with the replacement computed from the matched text.\<close>

function re_sub :: "regex \<Rightarrow> (string \<Rightarrow> string) \<Rightarrow> string \<Rightarrow> string" where
  "re_sub r repl [] = []"
| "re_sub r repl (c # cs) =
     (case re_match r (c # cs) of
        None \<Rightarrow> c # re_sub r repl cs
      | Some rest \<Rightarrow>
          if length rest < length (c # cs)
          then repl (take (length (c # cs) - length rest) (c # cs)) @ re_sub r repl rest
          else c # re_sub r repl cs)"
  by pat_completeness auto
termination
  by (relation "measure (\<lambda>(r, repl, s). length s)") auto

section \<open>Errors\<close>

text \<open>
  The exceptions the program can end in: Python's own (a division by zero, a key missing
  from a dict, an index out of range, arrays of different heights given to
  \<open>numpy.column_stack\<close>) and, by the name of its class, an exception raised inside a
  library call (\<open>nltk\<close>, a vectorizer, a model). The program defines no exception class
  and catches nothing.
\<close>

datatype error =
    ZeroDivisionError
  | KeyError string
  | IndexError
  | ValueError
  | TypeError
  | LibraryError string

fun error_kind :: "error \<Rightarrow> string" where
  "error_kind ZeroDivisionError = ''ZeroDivisionError''"
| "error_kind (KeyError k) = ''KeyError''"
| "error_kind IndexError = ''IndexError''"
| "error_kind ValueError = ''ValueError''"
| "error_kind TypeError = ''TypeError''"
| "error_kind (LibraryError n) = n"

section \<open>The patterns of \<open>Dataset\<close>\<close>

definition alts :: "string list \<Rightarrow> regex" where
  "alts ls = foldr Alt (map Lit (butlast ls)) (Lit (last ls))"

text \<open>\<^verbatim>\<open>(https?|ftp)://[^\s]*\<close>\<close>

definition URL_REGEX :: regex where
  "URL_REGEX =
     Seq (Alt (Seq (Lit ''http'') (Opt (Lit ''s''))) (Lit ''ftp''))
         (Seq (Lit ''://'') (Star NotSpace))"

text \<open>\<^verbatim>\<open>@username\<close>\<close>

definition REPLY_REGEX :: regex where
  "REPLY_REGEX = Lit ''@username''"

definition URL_TAG :: string where
  "URL_TAG = ''URL''"

definition REPLY_TAG :: string where
  "REPLY_TAG = ''REP''"

text \<open>
  \<^verbatim>\<open>(.)\1{3,}\<close>, and its replacement \<^verbatim>\<open>\1\1\1\<close>: group 1 is the first character of the
  match.
\<close>

definition REPEAT_REGEX :: regex where
  "REPEAT_REGEX = GroupRep Dot 3"

definition group1_thrice :: "string \<Rightarrow> string" where
  "group1_thrice m = take 1 m @ take 1 m @ take 1 m"

text \<open>\<^verbatim>\<open>[^a-zA-Z]\<close>\<close>

definition NON_LETTER_REGEX :: regex where
  "NON_LETTER_REGEX = Cls NotLetter"

text \<open>\<^verbatim>\<open>(?::|;|:\'|=)(?:-)?(?:\)|\(|D|P|d|p|3)|<3|</3|xd|xD|XD\<close>\<close>

definition EMOTICON_REGEX :: regex where
  "EMOTICON_REGEX =
     Alt (Seq (alts ['':'', '';'', [CHR '':'', CHR 0x27], ''=''])
           (Seq (Opt (Lit ''-''))
                (alts ['')'', ''('', ''D'', ''P'', ''d'', ''p'', ''3''])))
         (alts [''<3'', ''</3'', ''xd'', ''xD'', ''XD''])"

text \<open>\<^verbatim>\<open>(\w)\1{3,}\<close>\<close>

definition REPETITION_REGEX :: regex where
  "REPETITION_REGEX = GroupRep Word 3"

text \<open>\<^verbatim>\<open>#(\w+)\<close>\<close>

definition HASHTAG_REGEX :: regex where
  "HASHTAG_REGEX = Seq (Lit ''#'') (Plus Word)"

text \<open>\<^verbatim>\<open>!+\<close>\<close>

definition EXCLAMATION_REGEX :: regex where
  "EXCLAMATION_REGEX = Plus (Chr CHR ''!'')"

section \<open>\<open>Dataset\<close>\<close>

text \<open>
  The attributes of a \<open>Dataset\<close>. An attribute holding \<open>None\<close> is \<^const>\<open>None\<close>. The
  averages are Python floats obtained by dividing two integers; they are kept here as the
  exact quotient.
\<close>

record dataset =
  timeline :: "string list option"
  avg_emoticon_counts :: "rat option"
  avg_hashtag_counts :: "rat option"
  avg_exclamation_counts :: "rat option"
  avg_reply_counts :: "rat option"
  avg_repetition_counts :: "rat option"
  avg_tweet_len :: "rat option"
  processed_timeline :: "string option"

text \<open>A post as the constructor receives it: a dict, read at the key \<open>"text"\<close>.\<close>

type_synonym tweet_dict = "string \<rightharpoonup> string"

fun collect_texts :: "tweet_dict list \<Rightarrow> string list \<Rightarrow> error + string list" where
  "collect_texts [] acc = Inr acc"
| "collect_texts (tweet_dict # rest) acc =
     (case tweet_dict ''text'' of
        None \<Rightarrow> Inl (KeyError ''text'')
      | Some text \<Rightarrow> collect_texts rest (acc @ [text]))"

definition new_dataset :: "string list \<Rightarrow> dataset" where
  "new_dataset texts =
     \<lparr>timeline = Some texts,
      avg_emoticon_counts = None,
      avg_hashtag_counts = None,
      avg_exclamation_counts = None,
      avg_reply_counts = None,
      avg_repetition_counts = None,
      avg_tweet_len = None,
      processed_timeline = None\<rparr>"

definition Dataset_init :: "tweet_dict list option \<Rightarrow> error + dataset" where
  "Dataset_init timeline_list =
     (case (case timeline_list of None \<Rightarrow> Inr [] | Some dicts \<Rightarrow> collect_texts dicts []) of
        Inl e \<Rightarrow> Inl e
      | Inr texts \<Rightarrow> Inr (new_dataset texts))"

text \<open>\<open>count/len(self.timeline)\<close>: true division of two integers.\<close>

definition py_truediv :: "nat \<Rightarrow> nat \<Rightarrow> error + rat" where
  "py_truediv count n = (if n = 0 then Inl ZeroDivisionError else Inr (of_nat count / of_nat n))"

text \<open>
  The six averages share one shape: unless the timeline is \<open>None\<close> (then the method falls
  off its end and returns \<open>None\<close>), add up a count per tweet and divide by the number of
  tweets.
\<close>

definition count_avg :: "(string \<Rightarrow> nat) \<Rightarrow> dataset \<Rightarrow> error + rat option" where
  "count_avg per_tweet d =
     (case timeline d of
        None \<Rightarrow> Inr None
      | Some tweets \<Rightarrow>
          (case py_truediv (fold (\<lambda>tweet count. count + per_tweet tweet) tweets 0)
                  (length tweets) of
             Inl e \<Rightarrow> Inl e
           | Inr q \<Rightarrow> Inr (Some q)))"

definition count_avg_emoticons :: "dataset \<Rightarrow> error + rat option" where
  "count_avg_emoticons = count_avg (\<lambda>tweet. length (re_findall EMOTICON_REGEX tweet))"

definition count_avg_repetitions :: "dataset \<Rightarrow> error + rat option" where
  "count_avg_repetitions = count_avg (\<lambda>tweet. length (re_findall REPETITION_REGEX tweet))"

definition count_avg_replies :: "dataset \<Rightarrow> error + rat option" where
  "count_avg_replies = count_avg (\<lambda>tweet. length (re_findall REPLY_REGEX tweet))"

definition count_avg_hashtags :: "dataset \<Rightarrow> error + rat option" where
  "count_avg_hashtags = count_avg (\<lambda>tweet. length (re_findall HASHTAG_REGEX tweet))"

definition count_avg_exclamations :: "dataset \<Rightarrow> error + rat option" where
  "count_avg_exclamations = count_avg (\<lambda>tweet. length (re_findall EXCLAMATION_REGEX tweet))"

definition count_avg_tweet_len :: "dataset \<Rightarrow> error + rat option" where
  "count_avg_tweet_len = count_avg (\<lambda>tweet. length tweet)"

text \<open>\<open>generate_features\<close> fills the six attributes in this order; the first error ends it.\<close>

definition generate_features :: "dataset \<Rightarrow> error + dataset" where
  "generate_features d =
     (case count_avg_emoticons d of Inl e \<Rightarrow> Inl e | Inr v1 \<Rightarrow>
      let d1 = d\<lparr>avg_emoticon_counts := v1\<rparr> in
     (case count_avg_hashtags d1 of Inl e \<Rightarrow> Inl e | Inr v2 \<Rightarrow>
      let d2 = d1\<lparr>avg_hashtag_counts := v2\<rparr> in
     (case count_avg_exclamations d2 of Inl e \<Rightarrow> Inl e | Inr v3 \<Rightarrow>
      let d3 = d2\<lparr>avg_exclamation_counts := v3\<rparr> in
     (case count_avg_replies d3 of Inl e \<Rightarrow> Inl e | Inr v4 \<Rightarrow>
      let d4 = d3\<lparr>avg_reply_counts := v4\<rparr> in
     (case count_avg_repetitions d4 of Inl e \<Rightarrow> Inl e | Inr v5 \<Rightarrow>
      let d5 = d4\<lparr>avg_repetition_counts := v5\<rparr> in
     (case count_avg_tweet_len d5 of Inl e \<Rightarrow> Inl e | Inr v6 \<Rightarrow>
      Inr (d5\<lparr>avg_tweet_len := v6\<rparr>)))))))"

subsection \<open>\<open>process_tweet\<close>\<close>

text \<open>\<open>str.split()\<close>: the maximal blocks of non-whitespace characters, in order.\<close>

fun split_from :: "string \<Rightarrow> string \<Rightarrow> string list" where
  "split_from w [] = (if w = [] then [] else [w])"
| "split_from w (c # cs) =
     (if is_space c then (if w = [] then split_from [] cs else w # split_from [] cs)
      else split_from (w @ [c]) cs)"

definition split :: "string \<Rightarrow> string list" where
  "split s = split_from [] s"

text \<open>\<open>sep.join(xs)\<close>\<close>

fun join :: "string \<Rightarrow> string list \<Rightarrow> string" where
  "join sep [] = []"
| "join sep [x] = x"
| "join sep (x # y # ys) = x @ sep @ join sep (y # ys)"

text \<open>
  \<open>stopwords.words\<close> of \<open>nltk\<close> is not part of the program: it is a parameter, a function
  from the language to the list of its stopwords that may raise instead.
\<close>

type_synonym stopword_corpus = "string \<Rightarrow> error + string list"

definition process_tweet :: "stopword_corpus \<Rightarrow> string \<Rightarrow> string \<Rightarrow> error + string" where
  "process_tweet stopwords_words text language =
     (let text1 = re_sub URL_REGEX (\<lambda>m. URL_TAG) text;
          text2 = re_sub REPLY_REGEX (\<lambda>m. REPLY_TAG) text1;
          text3 = re_sub REPEAT_REGEX group1_thrice text2;
          letters_only = re_sub NON_LETTER_REGEX (\<lambda>m. '' '') text3;
          words = split (lower letters_only)
      in case stopwords_words language of
           Inl e \<Rightarrow> Inl e
         | Inr stops \<Rightarrow> Inr (join '' '' (filter (\<lambda>w. w \<notin> set stops) words)))"

subsection \<open>\<open>process\<close>\<close>

text \<open>\<open>map(self.process_tweet, self.timeline)\<close>, consumed by \<open>list\<close>: the first error ends it.\<close>

fun map_tweets :: "stopword_corpus \<Rightarrow> string list \<Rightarrow> error + string list" where
  "map_tweets stopwords_words [] = Inr []"
| "map_tweets stopwords_words (tweet # rest) =
     (case process_tweet stopwords_words tweet ''english'' of
        Inl e \<Rightarrow> Inl e
      | Inr t \<Rightarrow>
          (case map_tweets stopwords_words rest of
             Inl e \<Rightarrow> Inl e
           | Inr ts \<Rightarrow> Inr (t # ts)))"

text \<open>
  \<open>process\<close> stores the combined document in the object and returns the pair of the
  one-document list and the list of the six attributes as they are at that moment.
\<close>

definition process ::
  "stopword_corpus \<Rightarrow> dataset \<Rightarrow> error + dataset \<times> string list \<times> rat option list" where
  "process stopwords_words d =
     (case timeline d of
        None \<Rightarrow> Inl TypeError
      | Some tweets \<Rightarrow>
          (case map_tweets stopwords_words tweets of
             Inl e \<Rightarrow> Inl e
           | Inr ts \<Rightarrow>
               let d' = d\<lparr>processed_timeline := Some (join '' '' ts)\<rparr>
               in Inr (d', [join '' '' ts],
                       [avg_emoticon_counts d', avg_hashtag_counts d',
                        avg_exclamation_counts d', avg_reply_counts d',
                        avg_repetition_counts d', avg_tweet_len d'])))"

section \<open>\<open>Predictor\<close>\<close>

text \<open>
  A vectorizer and a model are unpickled objects of a library; the program only calls
  \<open>transform(...).toarray()\<close> on the one and \<open>predict\<close> on the other. Each is taken as the
  function that call computes, from the documents to a matrix (a list of rows) and from a
  matrix to an array of outputs; either call may raise. The type \<open>'a\<close> is the type of the
  numbers. A \<open>Predictor\<close> is built from the two lists that \<open>Dataset.process\<close> returned, as
  \<open>Respond.post\<close> does; the defaults \<open>None\<close> of the constructor for them are not modelled.
\<close>

type_synonym 'a vectorizer = "string list \<Rightarrow> error + 'a list list"
type_synonym 'a model = "'a list list \<Rightarrow> error + 'a list"

record 'a predictor =
  personalities :: "string list"
  timeline_pred :: "string list"
  features :: "'a list"
  models :: "string \<rightharpoonup> 'a model"
  vectorizers :: "string \<rightharpoonup> 'a vectorizer"

definition default_personalities :: "string list" where
  "default_personalities = [''extroverted'', ''stable'', ''agreeable'', ''conscientious'', ''open'']"

definition vectorizer_path :: "string \<Rightarrow> string" where
  "vectorizer_path personality = ''./models/'' @ personality @ ''_vectorizer.pkl''"

definition model_path :: "string \<Rightarrow> string" where
  "model_path personality = ''./models/'' @ personality @ ''_model.pkl''"

text \<open>
  The constructor's loop over the traits. The directory is a parameter: two maps from a
  path to the object pickled there, undefined where there is no such file. A trait whose
  file is missing gets no entry, and nothing is raised.
\<close>

fun load_artifacts ::
  "(string \<rightharpoonup> 'a vectorizer) \<Rightarrow> (string \<rightharpoonup> 'a model) \<Rightarrow> string list \<Rightarrow>
   (string \<rightharpoonup> 'a vectorizer) \<times> (string \<rightharpoonup> 'a model) \<Rightarrow>
   (string \<rightharpoonup> 'a vectorizer) \<times> (string \<rightharpoonup> 'a model)" where
  "load_artifacts vfiles mfiles [] (vs, ms) = (vs, ms)"
| "load_artifacts vfiles mfiles (personality # rest) (vs, ms) =
     (let vs' = (case vfiles (vectorizer_path personality) of
                   None \<Rightarrow> vs | Some v \<Rightarrow> vs(personality \<mapsto> v));
          ms' = (case mfiles (model_path personality) of
                   None \<Rightarrow> ms | Some m \<Rightarrow> ms(personality \<mapsto> m))
      in load_artifacts vfiles mfiles rest (vs', ms'))"

definition Predictor_init ::
  "(string \<rightharpoonup> 'a vectorizer) \<Rightarrow> (string \<rightharpoonup> 'a model) \<Rightarrow>
   string list \<Rightarrow> 'a list \<Rightarrow> string list \<Rightarrow> 'a predictor" where
  "Predictor_init vfiles mfiles timeline_arg features_arg personalities_arg =
     (let (vs, ms) = load_artifacts vfiles mfiles personalities_arg (Map.empty, Map.empty)
      in \<lparr>personalities = personalities_arg,
          timeline_pred = timeline_arg,
          features = features_arg,
          models = ms,
          vectorizers = vs\<rparr>)"

text \<open>\<open>numpy.column_stack\<close> of two matrices: they must have as many rows as each other.\<close>

definition column_stack :: "'a list list \<Rightarrow> 'a list list \<Rightarrow> error + 'a list list" where
  "column_stack A B =
     (if length A = length B then Inr (map (\<lambda>(row, row'). row @ row') (zip A B))
      else Inl ValueError)"

definition load_input :: "'a predictor \<Rightarrow> string \<Rightarrow> error + 'a list list" where
  "load_input p trait =
     (case vectorizers p trait of
        None \<Rightarrow> Inl (KeyError trait)
      | Some vectorizer \<Rightarrow>
          (case vectorizer (timeline_pred p) of
             Inl e \<Rightarrow> Inl e
           | Inr text_vec \<Rightarrow> column_stack text_vec [features p]))"

text \<open>
  The loop of \<open>estimate_traits\<close>, with the dict \<open>output\<close> built so far. \<open>round\<close> is the
  built-in applied to the library's number: a parameter.
\<close>

fun estimate_loop ::
  "('a \<Rightarrow> nat \<Rightarrow> 'a) \<Rightarrow> 'a predictor \<Rightarrow> string list \<Rightarrow> (string \<rightharpoonup> 'a) \<Rightarrow>
   error + (string \<rightharpoonup> 'a)" where
  "estimate_loop py_round p [] output = Inr output"
| "estimate_loop py_round p (personality # rest) output =
     (case load_input p personality of
        Inl e \<Rightarrow> Inl e
      | Inr input_vec \<Rightarrow>
          (case models p personality of
             None \<Rightarrow> Inl (KeyError personality)
           | Some model \<Rightarrow>
               (case model input_vec of
                  Inl e \<Rightarrow> Inl e
                | Inr [] \<Rightarrow> Inl IndexError
                | Inr (y # ys) \<Rightarrow>
                    estimate_loop py_round p rest (output(personality \<mapsto> py_round y 2)))))"

definition estimate_traits ::
  "('a \<Rightarrow> nat \<Rightarrow> 'a) \<Rightarrow> 'a predictor \<Rightarrow> error + (string \<rightharpoonup> 'a)" where
  "estimate_traits py_round p = estimate_loop py_round p (personalities p) Map.empty"

section \<open>The specification's wording, for comparison\<close>

text \<open>
  The functions of this section are not translations of the program: they write down, with
  list functions only, what the specification says the program computes. The theorems
  compare the program with them.
\<close>

text \<open>The number of places in \<open>s\<close> at which \<open>pat\<close> occurs.\<close>

definition occurrences :: "string \<Rightarrow> string \<Rightarrow> nat" where
  "occurrences pat s = length (filter (prefix pat) (suffixes s))"

text \<open>The sum of the per-post counts divided by the number of posts.\<close>

definition mean_count :: "(string \<Rightarrow> nat) \<Rightarrow> string list \<Rightarrow> rat" where
  "mean_count per_tweet tweets = of_nat (sum_list (map per_tweet tweets)) / of_nat (length tweets)"

text \<open>
  Step 1: a URL is one of the three schemes, then \<open>://\<close>, then the non-whitespace
  characters that follow, as far as they go.
\<close>

definition url_prefixes :: "string list" where
  "url_prefixes = [''http://'', ''https://'', ''ftp://'']"

function replace_urls :: "string \<Rightarrow> string" where
  "replace_urls [] = []"
| "replace_urls (c # cs) =
     (case find (\<lambda>p. prefix p (c # cs)) url_prefixes of
        None \<Rightarrow> c # replace_urls cs
      | Some p \<Rightarrow>
          ''URL'' @ replace_urls (dropWhile (\<lambda>x. \<not> is_space x) (drop (length p) (c # cs))))"
  by pat_completeness auto
termination
proof (relation "measure length")
  fix c :: char and cs p
  assume "find (\<lambda>p. prefix p (c # cs)) url_prefixes = Some p"
  then have "p \<in> set url_prefixes"
    by (auto simp: find_Some_iff)
  then have "0 < length p"
    by (auto simp: url_prefixes_def)
  then have "length (drop (length p) (c # cs)) < length (c # cs)"
    by simp
  moreover have "length (dropWhile (\<lambda>x. \<not> is_space x) (drop (length p) (c # cs)))
      \<le> length (drop (length p) (c # cs))"
    by (rule length_dropWhile_le)
  ultimately have "length (dropWhile (\<lambda>x. \<not> is_space x) (drop (length p) (c # cs)))
      < length (c # cs)"
    by (rule le_less_trans [rotated])
  then show "(dropWhile (\<lambda>x. \<not> is_space x) (drop (length p) (c # cs)), c # cs) \<in> measure length"
    by simp
qed simp_all

text \<open>Step 2: every occurrence of a literal text is replaced, from left to right.\<close>

function replace_all :: "string \<Rightarrow> string \<Rightarrow> string \<Rightarrow> string" where
  "replace_all pat rep [] = []"
| "replace_all pat rep (c # cs) =
     (if pat \<noteq> [] \<and> prefix pat (c # cs)
      then rep @ replace_all pat rep (drop (length pat) (c # cs))
      else c # replace_all pat rep cs)"
  by pat_completeness auto
termination
  by (relation "measure (\<lambda>(pat, rep, s). length s)") auto

text \<open>Step 3: the text cut into its maximal runs of one character, each run cut down to three.\<close>

fun runs :: "'a list \<Rightarrow> 'a list list" where
  "runs [] = []"
| "runs (x # xs) =
     (case runs xs of
        (y # r) # rs \<Rightarrow> if x = y then (x # y # r) # rs else [x] # (y # r) # rs
      | _ \<Rightarrow> [[x]])"

definition collapse_runs :: "string \<Rightarrow> string" where
  "collapse_runs s = concat (map (take 3) (runs s))"

text \<open>Step 4: every character that is not an ASCII letter becomes a space.\<close>

definition letters_only_spec :: "string \<Rightarrow> string" where
  "letters_only_spec s = map (\<lambda>c. if is_ascii_letter c then c else CHR '' '') s"

text \<open>Steps 1 to 7 in this order, for a given set of stopwords.\<close>

definition normalize_spec :: "string list \<Rightarrow> string \<Rightarrow> string" where
  "normalize_spec stops text =
     join '' ''
       (filter (\<lambda>w. w \<notin> set stops)
         (split (lower (letters_only_spec (collapse_runs
           (replace_all ''@username'' ''REP'' (replace_urls text)))))))"

text \<open>
  The first output of a trait's model on the trait's input row: \<open>None\<close> when the trait lacks
  an artifact, when a library call raises, when the vectorizer does not return exactly one
  row, or when the model returns no output.
\<close>

definition first_output :: "'a predictor \<Rightarrow> string \<Rightarrow> 'a option" where
  "first_output p trait =
     (case vectorizers p trait of
        None \<Rightarrow> None
      | Some vectorizer \<Rightarrow>
          (case models p trait of
             None \<Rightarrow> None
           | Some model \<Rightarrow>
               (case vectorizer (timeline_pred p) of
                  Inr [row] \<Rightarrow>
                    (case model [row @ features p] of
                       Inr (y # ys) \<Rightarrow> Some y
                     | _ \<Rightarrow> None)
                | _ \<Rightarrow> None)))"



section \<open>Sample inputs\<close>

text \<open>A post as the HTTP layer hands it over.\<close>

definition post :: "string \<Rightarrow> tweet_dict" where
  "post text = [''text'' \<mapsto> text]"

text \<open>
  A stopword corpus that knows English only (four words of it) and raises \<open>OSError\<close> for
  any other language, as \<open>nltk\<close>'s reader does when the language has no file.
\<close>

definition sample_corpus :: stopword_corpus where
  "sample_corpus language =
     (if language = ''english'' then Inr [''i'', ''this'', ''the'', ''now'']
      else Inl (LibraryError ''OSError''))"

text \<open>Stand-ins for a vectorizer, a model and the rounding of numbers.\<close>

definition stub_vectorizer :: "rat vectorizer" where
  "stub_vectorizer docs = Inr (map (\<lambda>doc. [of_nat (length doc)]) docs)"

definition stub_model :: "rat model" where
  "stub_model rows = Inr (map (\<lambda>row. sum_list row / 8) rows)"

definition stub_round :: "rat \<Rightarrow> nat \<Rightarrow> rat" where
  "stub_round x ndigits = of_int \<lfloor>x * 10 ^ ndigits + 1 / 2\<rfloor> / 10 ^ ndigits"


text \<open>The same with every file in place.\<close>

definition fully_loaded :: "rat predictor" where
  "fully_loaded =
     Predictor_init
       [vectorizer_path ''stable'' \<mapsto> stub_vectorizer,
        vectorizer_path ''open'' \<mapsto> stub_vectorizer]
       [model_path ''stable'' \<mapsto> stub_model, model_path ''open'' \<mapsto> stub_model]
       [''love great meh''] [1, 2, 3, 4, 5, 6] [''stable'', ''open'']"

section \<open>The style averages\<close>

lemma collect_texts_posts: "collect_texts (map post texts) acc = Inr (acc @ texts)"
  by (induction texts arbitrary: acc) (simp_all add: post_def)

lemma Dataset_init_posts: "Dataset_init (Some (map post texts)) = Inr (new_dataset texts)"
  by (simp add: Dataset_init_def collect_texts_posts)

lemma fold_count:
  "fold (\<lambda>tweet count. count + f tweet) tweets (n::nat) = n + sum_list (map f tweets)"
  by (induction tweets arbitrary: n) simp_all

lemma count_avg_Some:
  "timeline d = Some tweets \<Longrightarrow> tweets \<noteq> [] \<Longrightarrow>
   count_avg f d = Inr (Some (mean_count f tweets))"
  by (simp add: count_avg_def py_truediv_def fold_count mean_count_def)

lemma count_avg_empty: "timeline d = Some [] \<Longrightarrow> count_avg f d = Inl ZeroDivisionError"
  by (simp add: count_avg_def py_truediv_def)

lemmas count_avg_defs =
  count_avg_emoticons_def count_avg_hashtags_def count_avg_exclamations_def
  count_avg_replies_def count_avg_repetitions_def count_avg_tweet_len_def

text \<open>
  Claim C6, on the batch of the two posts \<open>I love this!!! :) #great\<close> and \<open>meh\<close>: the
  three exclamation marks of the first post count as one run, and the averages of
  hashtags, exclamations and emoticons are each one half, the average length 27/2 = 13.5.
\<close>

theorem style_averages_example:
  "Dataset_init (Some [post ''I love this!!! :) #great'', post ''meh''])
     = Inr (new_dataset [''I love this!!! :) #great'', ''meh''])
   \<and> re_findall EXCLAMATION_REGEX ''I love this!!! :) #great'' = [''!!!'']
   \<and> count_avg_hashtags (new_dataset [''I love this!!! :) #great'', ''meh''])
       = Inr (Some (1 / 2))
   \<and> count_avg_exclamations (new_dataset [''I love this!!! :) #great'', ''meh''])
       = Inr (Some (1 / 2))
   \<and> count_avg_emoticons (new_dataset [''I love this!!! :) #great'', ''meh''])
       = Inr (Some (1 / 2))
   \<and> count_avg_tweet_len (new_dataset [''I love this!!! :) #great'', ''meh''])
       = Inr (Some (27 / 2))"
proof -
  have "Dataset_init (Some (map post [''I love this!!! :) #great'', ''meh'']))
      = Inr (new_dataset [''I love this!!! :) #great'', ''meh''])"
    by (rule Dataset_init_posts)
  moreover have "re_findall EXCLAMATION_REGEX ''I love this!!! :) #great'' = [''!!!'']"
    by code_simp
  moreover have
    "count_avg_hashtags (new_dataset [''I love this!!! :) #great'', ''meh'']) = Inr (Some (1 / 2))"
    by code_simp
  moreover have
    "count_avg_exclamations (new_dataset [''I love this!!! :) #great'', ''meh''])
       = Inr (Some (1 / 2))"
    by code_simp
  moreover have
    "count_avg_emoticons (new_dataset [''I love this!!! :) #great'', ''meh'']) = Inr (Some (1 / 2))"
    by code_simp
  moreover have
    "count_avg_tweet_len (new_dataset [''I love this!!! :) #great'', ''meh''])
       = Inr (Some (27 / 2))"
    by code_simp
  ultimately show ?thesis
    by simp
qed

text \<open>
  Claim C1 asks that an empty batch be answered with a defined error and never with a
  division by zero. The six methods do guard their division, with \<open>is None\<close>, but the
  constructor always stores a list, so the guard lets the empty list through: on the empty
  batch the constructor succeeds, and each of the six averages, and \<open>generate_features\<close>
  with them, ends in Python's \<open>ZeroDivisionError\<close>, raised by the division by the zero
  length. That is not an error of the kind \<open>EmptyBatchError\<close>.
\<close>

theorem empty_batch_divides_by_zero:
  "Dataset_init (Some []) = Inr (new_dataset [])
   \<and> count_avg_emoticons (new_dataset []) = Inl ZeroDivisionError
   \<and> count_avg_hashtags (new_dataset []) = Inl ZeroDivisionError
   \<and> count_avg_exclamations (new_dataset []) = Inl ZeroDivisionError
   \<and> count_avg_replies (new_dataset []) = Inl ZeroDivisionError
   \<and> count_avg_repetitions (new_dataset []) = Inl ZeroDivisionError
   \<and> count_avg_tweet_len (new_dataset []) = Inl ZeroDivisionError
   \<and> generate_features (new_dataset []) = Inl ZeroDivisionError
   \<and> error_kind ZeroDivisionError \<noteq> ''EmptyBatchError''"
proof -
  have t: "timeline (new_dataset []) = Some []"
    by (simp add: new_dataset_def)
  have "Dataset_init (Some []) = Inr (new_dataset [])"
    by (simp add: Dataset_init_def)
  moreover have six: "count_avg_emoticons (new_dataset []) = Inl ZeroDivisionError"
    "count_avg_hashtags (new_dataset []) = Inl ZeroDivisionError"
    "count_avg_exclamations (new_dataset []) = Inl ZeroDivisionError"
    "count_avg_replies (new_dataset []) = Inl ZeroDivisionError"
    "count_avg_repetitions (new_dataset []) = Inl ZeroDivisionError"
    "count_avg_tweet_len (new_dataset []) = Inl ZeroDivisionError"
    by (simp_all add: count_avg_defs count_avg_empty [OF t])
  moreover have "generate_features (new_dataset []) = Inl ZeroDivisionError"
    by (simp add: generate_features_def six(1))
  ultimately show ?thesis
    by simp
qed

section \<open>The feature vector\<close>

lemma generate_features_Some:
  assumes "timeline d = Some tweets" "tweets \<noteq> []"
  shows "generate_features d =
    Inr (d\<lparr>avg_emoticon_counts :=
             Some (mean_count (\<lambda>tweet. length (re_findall EMOTICON_REGEX tweet)) tweets),
          avg_hashtag_counts :=
             Some (mean_count (\<lambda>tweet. length (re_findall HASHTAG_REGEX tweet)) tweets),
          avg_exclamation_counts :=
             Some (mean_count (\<lambda>tweet. length (re_findall EXCLAMATION_REGEX tweet)) tweets),
          avg_reply_counts :=
             Some (mean_count (\<lambda>tweet. length (re_findall REPLY_REGEX tweet)) tweets),
          avg_repetition_counts :=
             Some (mean_count (\<lambda>tweet. length (re_findall REPETITION_REGEX tweet)) tweets),
          avg_tweet_len := Some (mean_count length tweets)\<rparr>)"
  using assms by (simp add: generate_features_def count_avg_defs count_avg_Some Let_def)

lemma map_tweets_ok:
  "stopwords_words ''english'' = Inr stops \<Longrightarrow> \<exists>ts. map_tweets stopwords_words tweets = Inr ts"
  by (induction tweets) (auto simp: process_tweet_def Let_def)

text \<open>
  Claim C4: for a non-empty batch and a stopword corpus that has English,
  \<open>generate_features\<close> followed by \<open>process\<close> returns the six averages in the order
  emoticons, hashtags, exclamations, replies, repetitions, length; calling both again on
  the resulting object changes nothing and returns the same vector.
\<close>

theorem feature_vector_order:
  assumes "timeline d = Some tweets" "tweets \<noteq> []" "stopwords_words ''english'' = Inr stops"
  shows "\<exists>d' d'' doc fv.
    fv = [Some (mean_count (\<lambda>tweet. length (re_findall EMOTICON_REGEX tweet)) tweets),
          Some (mean_count (\<lambda>tweet. length (re_findall HASHTAG_REGEX tweet)) tweets),
          Some (mean_count (\<lambda>tweet. length (re_findall EXCLAMATION_REGEX tweet)) tweets),
          Some (mean_count (\<lambda>tweet. length (re_findall REPLY_REGEX tweet)) tweets),
          Some (mean_count (\<lambda>tweet. length (re_findall REPETITION_REGEX tweet)) tweets),
          Some (mean_count length tweets)] \<and>
    generate_features d = Inr d' \<and>
    process stopwords_words d' = Inr (d'', [doc], fv) \<and>
    generate_features d'' = Inr d'' \<and>
    process stopwords_words d'' = Inr (d'', [doc], fv)"
proof -
  from assms(3) obtain ts where ts: "map_tweets stopwords_words tweets = Inr ts"
    using map_tweets_ok [of stopwords_words stops tweets] by blast
  show ?thesis
    using assms(1,2) ts
    by (simp add: generate_features_Some process_def Let_def)
qed

theorem feature_vector_order_witness:
  "timeline (new_dataset [''I love this!!! :) #great'', ''meh''])
     = Some [''I love this!!! :) #great'', ''meh'']
   \<and> [''I love this!!! :) #great'', ''meh''] \<noteq> []
   \<and> sample_corpus ''english'' = Inr [''i'', ''this'', ''the'', ''now'']
   \<and> (\<exists>d' d'' doc fv.
    fv = [Some (mean_count (\<lambda>tweet. length (re_findall EMOTICON_REGEX tweet))
                  [''I love this!!! :) #great'', ''meh'']),
          Some (mean_count (\<lambda>tweet. length (re_findall HASHTAG_REGEX tweet))
                  [''I love this!!! :) #great'', ''meh'']),
          Some (mean_count (\<lambda>tweet. length (re_findall EXCLAMATION_REGEX tweet))
                  [''I love this!!! :) #great'', ''meh'']),
          Some (mean_count (\<lambda>tweet. length (re_findall REPLY_REGEX tweet))
                  [''I love this!!! :) #great'', ''meh'']),
          Some (mean_count (\<lambda>tweet. length (re_findall REPETITION_REGEX tweet))
                  [''I love this!!! :) #great'', ''meh'']),
          Some (mean_count length [''I love this!!! :) #great'', ''meh''])] \<and>
    generate_features (new_dataset [''I love this!!! :) #great'', ''meh'']) = Inr d' \<and>
    process sample_corpus d' = Inr (d'', [doc], fv) \<and>
    generate_features d'' = Inr d'' \<and>
    process sample_corpus d'' = Inr (d'', [doc], fv))"
proof -
  have h1: "timeline (new_dataset [''I love this!!! :) #great'', ''meh''])
      = Some [''I love this!!! :) #great'', ''meh'']"
    by (simp add: new_dataset_def)
  have h2: "[''I love this!!! :) #great'', ''meh''] \<noteq> []"
    by simp
  have h3: "sample_corpus ''english'' = Inr [''i'', ''this'', ''the'', ''now'']"
    by (simp add: sample_corpus_def)
  from feature_vector_order
      [of "new_dataset [''I love this!!! :) #great'', ''meh'']"
          "[''I love this!!! :) #great'', ''meh'']" sample_corpus
          "[''i'', ''this'', ''the'', ''now'']", OF h1 h2 h3] h1 h2 h3
  show ?thesis
    by blast
qed

section \<open>An unknown language\<close>

text \<open>
  Claim C9 as stated fails: with a corpus that raises \<open>OSError\<close> for a language it does not
  have, \<open>process_tweet\<close> ends in that \<open>OSError\<close>, not in an error of the kind
  \<open>ConfigurationError\<close>.
\<close>

theorem unknown_language_is_OSError:
  "process_tweet sample_corpus ''hello'' ''klingon'' = Inl (LibraryError ''OSError'')
   \<and> error_kind (LibraryError ''OSError'') \<noteq> ''ConfigurationError''"
  by (simp add: process_tweet_def Let_def sample_corpus_def)

text \<open>
  Claim C9, amended: if the stopword corpus raises for the given language,
  \<open>process_tweet\<close> fails for every text, with that same error, unchanged.
\<close>

theorem unknown_language_propagates:
  "stopwords_words language = Inl e \<Longrightarrow> process_tweet stopwords_words text language = Inl e"
  by (simp add: process_tweet_def Let_def)

theorem unknown_language_propagates_witness:
  "sample_corpus ''klingon'' = Inl (LibraryError ''OSError'')
   \<and> process_tweet sample_corpus ''hello'' ''klingon'' = Inl (LibraryError ''OSError'')"
proof -
  have h: "sample_corpus ''klingon'' = Inl (LibraryError ''OSError'')"
    by (simp add: sample_corpus_def)
  from unknown_language_propagates
      [of sample_corpus "''klingon''" "LibraryError ''OSError''" "''hello''", OF h] h
  show ?thesis
    by simp
qed

section \<open>\<open>estimate_traits\<close>\<close>


lemma fully_loaded_eq:
  "fully_loaded =
     \<lparr>personalities = [''stable'', ''open''],
      timeline_pred = [''love great meh''],
      features = [1, 2, 3, 4, 5, 6],
      models = [''stable'' \<mapsto> stub_model, ''open'' \<mapsto> stub_model],
      vectorizers = [''stable'' \<mapsto> stub_vectorizer, ''open'' \<mapsto> stub_vectorizer]\<rparr>"
  by (simp add: fully_loaded_def Predictor_init_def vectorizer_path_def model_path_def)







lemma first_output_step:
  "first_output p t = Some y \<Longrightarrow>
   estimate_loop py_round p (t # ts) outp
     = estimate_loop py_round p ts (outp(t \<mapsto> py_round y 2))"
  by (auto simp: first_output_def load_input_def column_stack_def
      split: option.splits sum.splits list.splits)

lemma estimate_loop_ready:
  assumes "\<forall>t\<in>set ts. first_output p t \<noteq> None"
  shows "\<exists>out. estimate_loop py_round p ts outp = Inr out
     \<and> dom out = dom outp \<union> set ts
     \<and> (\<forall>t\<in>set ts. out t = map_option (\<lambda>y. py_round y 2) (first_output p t))
     \<and> (\<forall>t. t \<notin> set ts \<longrightarrow> out t = outp t)"
  using assms
proof (induction ts arbitrary: outp)
  case Nil
  then show ?case by simp
next
  case (Cons a ts)
  then obtain y where y: "first_output p a = Some y" by auto
  from Cons.prems have "\<forall>t\<in>set ts. first_output p t \<noteq> None" by simp
  from Cons.IH [OF this, of "outp(a \<mapsto> py_round y 2)"]
  obtain out where out: "estimate_loop py_round p ts (outp(a \<mapsto> py_round y 2)) = Inr out"
    "dom out = dom (outp(a \<mapsto> py_round y 2)) \<union> set ts"
    "\<forall>t\<in>set ts. out t = map_option (\<lambda>y. py_round y 2) (first_output p t)"
    "\<forall>t. t \<notin> set ts \<longrightarrow> out t = (outp(a \<mapsto> py_round y 2)) t"
    by blast
  have "estimate_loop py_round p (a # ts) outp = Inr out"
    using first_output_step [OF y] out(1) by simp
  moreover have "dom out = dom outp \<union> set (a # ts)"
    using out(2) by auto
  moreover have "\<forall>t\<in>set (a # ts). out t = map_option (\<lambda>y. py_round y 2) (first_output p t)"
  proof
    fix t assume "t \<in> set (a # ts)"
    show "out t = map_option (\<lambda>y. py_round y 2) (first_output p t)"
    proof (cases "t \<in> set ts")
      case True
      with out(3) show ?thesis by simp
    next
      case False
      with \<open>t \<in> set (a # ts)\<close> have "t = a" by simp
      with False out(4) y show ?thesis by simp
    qed
  qed
  moreover have "\<forall>t. t \<notin> set (a # ts) \<longrightarrow> out t = outp t"
    using out(4) by simp
  ultimately show ?case by blast
qed

text \<open>
  Claim C5: when for every configured trait the vectorizer and the model are loaded and
  answer (one row from the vectorizer, at least one output from the model),
  \<open>estimate_traits\<close> returns a mapping whose keys are exactly the configured traits, and
  the value of each trait is \<open>round\<close>, with two digits, of the first output of the trait's
  model on the trait's input row.
\<close>

theorem estimate_traits_complete:
  assumes "\<forall>t\<in>set (personalities p). first_output p t \<noteq> None"
  shows "\<exists>out. estimate_traits py_round p = Inr out
     \<and> dom out = set (personalities p)
     \<and> (\<forall>t\<in>set (personalities p).
           out t = map_option (\<lambda>y. py_round y 2) (first_output p t))"
  using estimate_loop_ready [OF assms, of py_round Map.empty]
  by (auto simp: estimate_traits_def)

lemma first_output_fully_loaded:
  "first_output fully_loaded ''stable'' = Some (35 / 8)"
  "first_output fully_loaded ''open'' = Some (35 / 8)"
  by (simp_all add: fully_loaded_eq first_output_def stub_vectorizer_def stub_model_def)

theorem estimate_traits_complete_witness:
  "personalities fully_loaded = [''stable'', ''open'']
   \<and> first_output fully_loaded ''stable'' \<noteq> None
   \<and> first_output fully_loaded ''open'' \<noteq> None
   \<and> (\<exists>out. estimate_traits stub_round fully_loaded = Inr out
        \<and> dom out = {''stable'', ''open''}
        \<and> out ''stable'' = Some (219 / 50) \<and> out ''open'' = Some (219 / 50))"
proof -
  have pers: "personalities fully_loaded = [''stable'', ''open'']"
    by (simp add: fully_loaded_eq)
  have h: "\<forall>t\<in>set (personalities fully_loaded). first_output fully_loaded t \<noteq> None"
    unfolding pers by (simp add: first_output_fully_loaded del: not_None_eq)
  from estimate_traits_complete [OF h, of stub_round]
  obtain out where out: "estimate_traits stub_round fully_loaded = Inr out"
    "dom out = set (personalities fully_loaded)"
    "\<forall>t\<in>set (personalities fully_loaded).
       out t = map_option (\<lambda>y. stub_round y 2) (first_output fully_loaded t)"
    by blast
  from out(2) have "dom out = {''stable'', ''open''}"
    unfolding pers by simp
  moreover from out(3) have "out ''stable'' = Some (219 / 50) \<and> out ''open'' = Some (219 / 50)"
    unfolding pers by (simp add: first_output_fully_loaded stub_round_def)
  ultimately show ?thesis
    using pers out(1) by (simp add: first_output_fully_loaded)
qed

section \<open>Facts about matching and scanning\<close>

lemma rmatch_suffix: "rest \<in> set (rmatch r s) \<Longrightarrow> suffix rest s"
proof (induction r arbitrary: s rest)
  case (Seq a b)
  then obtain mid where "mid \<in> set (rmatch a s)" "rest \<in> set (rmatch b mid)"
    by auto
  with Seq.IH show ?case
    by (meson suffix_order.trans)
next
  case (GroupRep X n)
  then show ?case
    by (auto simp: greedy_def suffix_drop split: list.splits if_splits intro: suffix_ConsI)
qed (auto simp: greedy_def suffix_drop split: list.splits if_splits intro: suffix_ConsI)

lemma re_match_length: "re_match r s = Some rest \<Longrightarrow> length rest \<le> length s"
  using rmatch_suffix [of rest r s]
  by (auto simp: re_match_def suffix_length_le split: list.splits)

text \<open>None of the program's patterns matches the empty text.\<close>

lemma rmatch_consumes:
  "\<not> nullable r \<Longrightarrow> rest \<in> set (rmatch r s) \<Longrightarrow> length rest < length s"
proof (induction r arbitrary: s rest)
  case (Lit l)
  then show ?case by (auto simp: prefix_def)
next
  case (Cls X)
  then show ?case by (auto split: list.splits if_splits)
next
  case (Seq a b)
  from Seq.prems(2) obtain mid where mid: "mid \<in> set (rmatch a s)" "rest \<in> set (rmatch b mid)"
    by auto
  then have le: "length mid \<le> length s" "length rest \<le> length mid"
    using rmatch_suffix suffix_length_le by blast+
  from Seq.prems(1) have "\<not> nullable a \<or> \<not> nullable b" by simp
  then show ?case
  proof
    assume "\<not> nullable a"
    from Seq.IH(1) [OF this mid(1)] le show ?thesis by simp
  next
    assume "\<not> nullable b"
    from Seq.IH(2) [OF this mid(2)] le show ?thesis by simp
  qed
next
  case (Alt a b)
  then show ?case by auto
next
  case (Plus X)
  then show ?case
    using length_takeWhile_le [of "in_class X" s] by (auto simp: greedy_def)
next
  case (GroupRep X n)
  then show ?case by (auto simp: greedy_def split: list.splits if_splits)
qed simp_all

lemma patterns_not_nullable:
  "\<not> nullable URL_REGEX" "\<not> nullable REPLY_REGEX" "\<not> nullable REPEAT_REGEX"
  "\<not> nullable NON_LETTER_REGEX" "\<not> nullable EMOTICON_REGEX" "\<not> nullable REPETITION_REGEX"
  "\<not> nullable HASHTAG_REGEX" "\<not> nullable EXCLAMATION_REGEX"
  by (simp_all add: URL_REGEX_def REPLY_REGEX_def REPEAT_REGEX_def NON_LETTER_REGEX_def
      EMOTICON_REGEX_def REPETITION_REGEX_def HASHTAG_REGEX_def EXCLAMATION_REGEX_def alts_def)

lemma greedy_empty: "hi < lo \<Longrightarrow> greedy lo hi s = []"
  by (simp add: greedy_def)

lemma greedy_first:
  "lo \<le> hi \<Longrightarrow> greedy lo hi s = drop hi s # map (\<lambda>i. drop i s) (rev [lo..<hi])"
  by (simp add: greedy_def)

lemma re_match_Lit: "re_match (Lit l) s = (if prefix l s then Some (drop (length l) s) else None)"
  by (simp add: re_match_def)

lemma re_match_Cls: "re_match (Cls X) (c # cs) = (if in_class X c then Some cs else None)"
  by (simp add: re_match_def)

lemma re_match_GroupRep:
  "re_match (GroupRep X n) (c # cs) =
     (if in_class X c \<and> n \<le> length (takeWhile (\<lambda>d. d = c) cs)
      then Some (dropWhile (\<lambda>d. d = c) cs) else None)"
  by (simp add: re_match_def greedy_first greedy_empty dropWhile_eq_drop not_le)

lemma re_findall_no_match:
  "re_match r (c # cs) = None \<Longrightarrow> re_findall r (c # cs) = re_findall r cs"
  by simp

lemma re_findall_match:
  "re_match r (m @ rest) = Some rest \<Longrightarrow> m \<noteq> [] \<Longrightarrow>
   re_findall r (m @ rest) = m # re_findall r rest"
  by (cases m) simp_all

lemma re_sub_no_match:
  "re_match r (c # cs) = None \<Longrightarrow> re_sub r repl (c # cs) = c # re_sub r repl cs"
  by simp

lemma re_sub_match:
  "re_match r (m @ rest) = Some rest \<Longrightarrow> m \<noteq> [] \<Longrightarrow>
   re_sub r repl (m @ rest) = repl m @ re_sub r repl rest"
  by (cases m) simp_all

declare re_findall.simps(2) [simp del] re_sub.simps(2) [simp del]

section \<open>The reply count\<close>

lemma occurrences_Nil: "occurrences pat [] = (if pat = [] then 1 else 0)"
  by (simp add: occurrences_def)

lemma occurrences_Cons:
  "occurrences pat (c # cs) = (if prefix pat (c # cs) then 1 else 0) + occurrences pat cs"
  by (simp add: occurrences_def)

lemma occurrences_username_skip:
  "occurrences ''@username'' (''@username'' @ rest) = Suc (occurrences ''@username'' rest)"
  by (simp add: occurrences_Cons)

lemma findall_reply_occurrences:
  "length (re_findall REPLY_REGEX tweet) = occurrences ''@username'' tweet"
proof (induction tweet rule: length_induct)
  case (1 s)
  show ?case
  proof (cases s)
    case Nil
    then show ?thesis by (simp add: occurrences_Nil)
  next
    case (Cons c cs)
    show ?thesis
    proof (cases "prefix ''@username'' s")
      case True
      then obtain rest where s: "s = ''@username'' @ rest"
        by (auto simp: prefix_def)
      have "length rest < length s" using s by simp
      with 1 have "length (re_findall REPLY_REGEX rest) = occurrences ''@username'' rest"
        by blast
      moreover have "re_match REPLY_REGEX (''@username'' @ rest) = Some rest"
        by (simp add: REPLY_REGEX_def re_match_Lit)
      then have "re_findall REPLY_REGEX (''@username'' @ rest)
          = ''@username'' # re_findall REPLY_REGEX rest"
        by (rule re_findall_match) simp
      ultimately show ?thesis
        unfolding s by (simp only: occurrences_username_skip list.size length_Cons)
    next
      case False
      have "length cs < length s" using Cons by simp
      with 1 have "length (re_findall REPLY_REGEX cs) = occurrences ''@username'' cs"
        by blast
      moreover from False have "re_match REPLY_REGEX s = None"
        by (simp add: REPLY_REGEX_def re_match_Lit)
      then have "re_findall REPLY_REGEX s = re_findall REPLY_REGEX cs"
        unfolding Cons by (rule re_findall_no_match)
      moreover from False have "occurrences ''@username'' s = occurrences ''@username'' cs"
        unfolding Cons by (simp only: occurrences_Cons if_False add_0)
      ultimately show ?thesis
        by simp
    qed
  qed
qed

text \<open>
  Claim C8: what \<open>count_avg_replies\<close> counts in a post is the number of places at which the
  literal text \<open>@username\<close> occurs in the raw post, and nothing else. For a non-empty batch
  it returns the sum of these numbers divided by the number of posts, and for a batch of
  one post that number itself.
\<close>

theorem reply_count_is_occurrences:
  assumes "timeline d = Some tweets" "tweets \<noteq> []"
  shows "count_avg_replies d = Inr (Some (mean_count (occurrences ''@username'') tweets))
    \<and> count_avg_replies (new_dataset [tweet])
        = Inr (Some (of_nat (occurrences ''@username'' tweet)))"
proof -
  have per_post: "(\<lambda>tweet. length (re_findall REPLY_REGEX tweet)) = occurrences ''@username''"
    by (rule ext) (rule findall_reply_occurrences)
  have "count_avg_replies d = Inr (Some (mean_count (occurrences ''@username'') tweets))"
    using assms by (simp add: count_avg_replies_def count_avg_Some per_post)
  moreover have "timeline (new_dataset [tweet]) = Some [tweet]"
    by (simp add: new_dataset_def)
  then have "count_avg_replies (new_dataset [tweet])
      = Inr (Some (mean_count (occurrences ''@username'') [tweet]))"
    by (simp add: count_avg_replies_def count_avg_Some per_post)
  then have "count_avg_replies (new_dataset [tweet])
      = Inr (Some (of_nat (occurrences ''@username'' tweet)))"
    by (simp add: mean_count_def)
  ultimately show ?thesis
    by simp
qed

theorem reply_count_is_occurrences_witness:
  "timeline (new_dataset [''@username hi @alice @username'', ''meh''])
     = Some [''@username hi @alice @username'', ''meh'']
   \<and> [''@username hi @alice @username'', ''meh''] \<noteq> []
   \<and> count_avg_replies (new_dataset [''@username hi @alice @username'', ''meh''])
       = Inr (Some 1)
   \<and> count_avg_replies (new_dataset [''@alice @usernam @Username @username''])
       = Inr (Some 1)"
proof -
  have h1: "timeline (new_dataset [''@username hi @alice @username'', ''meh''])
      = Some [''@username hi @alice @username'', ''meh'']"
    by (simp add: new_dataset_def)
  have h2: "[''@username hi @alice @username'', ''meh''] \<noteq> []"
    by simp
  have e1: "mean_count (occurrences ''@username'') [''@username hi @alice @username'', ''meh'']
      = 1"
    by code_simp
  have e2: "occurrences ''@username'' ''@alice @usernam @Username @username'' = 1"
    by code_simp
  from reply_count_is_occurrences
      [of "new_dataset [''@username hi @alice @username'', ''meh'']"
          "[''@username hi @alice @username'', ''meh'']"
          "''@alice @usernam @Username @username''", OF h1 h2] h1 h2
  show ?thesis
    by (simp add: e1 e2)
qed

section \<open>The rewriting steps of \<open>process_tweet\<close>\<close>

subsection \<open>Non-letters and the reply tag\<close>

lemma sub_non_letter: "re_sub NON_LETTER_REGEX (\<lambda>m. '' '') s = letters_only_spec s"
proof (induction s)
  case Nil
  show ?case by (simp add: letters_only_spec_def)
next
  case (Cons c cs)
  show ?case
  proof (cases "is_ascii_letter c")
    case True
    then have "re_match NON_LETTER_REGEX (c # cs) = None"
      by (simp add: NON_LETTER_REGEX_def re_match_Cls)
    from re_sub_no_match [OF this] Cons True show ?thesis
      by (simp add: letters_only_spec_def)
  next
    case False
    then have "re_match NON_LETTER_REGEX ([c] @ cs) = Some cs"
      by (simp add: NON_LETTER_REGEX_def re_match_Cls)
    from re_sub_match [OF this, of "\<lambda>m. '' ''"] Cons False show ?thesis
      by (simp add: letters_only_spec_def)
  qed
qed

lemma sub_reply: "re_sub REPLY_REGEX (\<lambda>m. REPLY_TAG) s = replace_all ''@username'' ''REP'' s"
proof (induction s rule: length_induct)
  case (1 s)
  show ?case
  proof (cases s)
    case Nil
    then show ?thesis by simp
  next
    case (Cons c cs)
    show ?thesis
    proof (cases "prefix ''@username'' s")
      case True
      then obtain rest where s: "s = ''@username'' @ rest"
        by (auto simp: prefix_def)
      have "length rest < length s" using s by simp
      with 1 have IH: "re_sub REPLY_REGEX (\<lambda>m. REPLY_TAG) rest
          = replace_all ''@username'' ''REP'' rest"
        by blast
      have "re_match REPLY_REGEX (''@username'' @ rest) = Some rest"
        by (simp add: REPLY_REGEX_def re_match_Lit)
      then have "re_sub REPLY_REGEX (\<lambda>m. REPLY_TAG) (''@username'' @ rest)
          = REPLY_TAG @ re_sub REPLY_REGEX (\<lambda>m. REPLY_TAG) rest"
        by (rule re_sub_match) simp
      with IH show ?thesis
        unfolding s by (simp add: REPLY_TAG_def)
    next
      case False
      have "length cs < length s" using Cons by simp
      with 1 have IH: "re_sub REPLY_REGEX (\<lambda>m. REPLY_TAG) cs
          = replace_all ''@username'' ''REP'' cs"
        by blast
      from False have "re_match REPLY_REGEX s = None"
        by (simp add: REPLY_REGEX_def re_match_Lit)
      then have "re_sub REPLY_REGEX (\<lambda>m. REPLY_TAG) s
          = c # re_sub REPLY_REGEX (\<lambda>m. REPLY_TAG) cs"
        unfolding Cons by (rule re_sub_no_match)
      moreover from False have "replace_all ''@username'' ''REP'' s
          = c # replace_all ''@username'' ''REP'' cs"
        unfolding Cons by (simp only: replace_all.simps if_False simp_thms)
      ultimately show ?thesis
        using IH by simp
    qed
  qed
qed

subsection \<open>URLs\<close>

lemma in_class_NotSpace: "in_class NotSpace = (\<lambda>x. \<not> is_space x)"
  by (rule ext) simp

lemma set_rmatch_Lit: "mid \<in> set (rmatch (Lit l) s) \<longleftrightarrow> s = l @ mid"
  by (auto simp: prefix_def)

lemma rmatch_URL_shape:
  assumes "rest \<in> set (rmatch URL_REGEX s)"
  shows "\<exists>p\<in>set url_prefixes. prefix p s"
proof -
  from assms obtain mid
    where mid: "mid \<in> set (rmatch (Alt (Seq (Lit ''http'') (Opt (Lit ''s''))) (Lit ''ftp'')) s)"
    and "rest \<in> set (rmatch (Seq (Lit ''://'') (Star NotSpace)) mid)"
    by (auto simp: URL_REGEX_def simp del: rmatch.simps(1))
  then obtain m2 where m2: "mid = ''://'' @ m2"
    by (auto simp: set_rmatch_Lit simp del: rmatch.simps(1))
  from mid have "s = ''http'' @ ''s'' @ mid \<or> s = ''http'' @ mid \<or> s = ''ftp'' @ mid"
    by (auto simp: set_rmatch_Lit simp del: rmatch.simps(1))
  with m2 show ?thesis
    by (auto simp: url_prefixes_def)
qed

lemma find_url_None:
  "find (\<lambda>p. prefix p s) url_prefixes = None \<Longrightarrow> re_match URL_REGEX s = None"
proof -
  assume "find (\<lambda>p. prefix p s) url_prefixes = None"
  then have "\<not> (\<exists>p\<in>set url_prefixes. prefix p s)"
    by (simp add: find_None_iff)
  with rmatch_URL_shape [of _ s] have "rmatch URL_REGEX s = []"
    by (cases "rmatch URL_REGEX s") auto
  then show ?thesis
    by (simp add: re_match_def)
qed

lemma greedy0_dropWhile:
  "\<exists>more. greedy 0 (length (takeWhile P u)) u = dropWhile P u # more"
  by (simp add: greedy_first dropWhile_eq_drop)

lemma re_match_URL_prefix:
  assumes "p \<in> set url_prefixes"
  shows "re_match URL_REGEX (p @ r) = Some (dropWhile (\<lambda>x. \<not> is_space x) r)"
proof -
  obtain more where more: "greedy 0 (length (takeWhile (\<lambda>x. \<not> is_space x) r)) r
      = dropWhile (\<lambda>x. \<not> is_space x) r # more"
    using greedy0_dropWhile by blast
  from assms have "\<exists>more'. rmatch URL_REGEX (p @ r)
      = greedy 0 (length (takeWhile (\<lambda>x. \<not> is_space x) r)) r @ more'"
    by (auto simp: url_prefixes_def URL_REGEX_def in_class_NotSpace)
  with more show ?thesis
    by (auto simp: re_match_def)
qed

lemma find_url_Some:
  assumes "find (\<lambda>p. prefix p s) url_prefixes = Some p"
  shows "re_match URL_REGEX s = Some (dropWhile (\<lambda>x. \<not> is_space x) (drop (length p) s))"
proof -
  from assms have "p \<in> set url_prefixes" "prefix p s"
    by (auto simp: find_Some_iff)
  then obtain r where "s = p @ r"
    by (auto simp: prefix_def)
  with re_match_URL_prefix [OF \<open>p \<in> set url_prefixes\<close>, of r] show ?thesis
    by simp
qed

lemma sub_url: "re_sub URL_REGEX (\<lambda>m. URL_TAG) s = replace_urls s"
proof (induction s rule: replace_urls.induct)
  case 1
  show ?case by simp
next
  case (2 c cs)
  show ?case
  proof (cases "find (\<lambda>p. prefix p (c # cs)) url_prefixes")
    case None
    from find_url_None [OF None] have "re_sub URL_REGEX (\<lambda>m. URL_TAG) (c # cs) = c # re_sub URL_REGEX (\<lambda>m. URL_TAG) cs"
      by (rule re_sub_no_match)
    with None 2(1) show ?thesis
      by simp
  next
    case (Some p)
    let ?rest = "dropWhile (\<lambda>x. \<not> is_space x) (drop (length p) (c # cs))"
    from Some have p: "p \<in> set url_prefixes" "prefix p (c # cs)"
      by (auto simp: find_Some_iff)
    then have "p \<noteq> []"
      by (auto simp: url_prefixes_def)
    have "suffix ?rest (c # cs)"
      by (meson suffix_drop suffix_dropWhile suffix_order.trans)
    then obtain m where m: "c # cs = m @ ?rest"
      by (auto simp: suffix_def)
    have "length ?rest \<le> length (drop (length p) (c # cs))"
      by (rule length_dropWhile_le)
    with \<open>p \<noteq> []\<close> have "length ?rest < length (c # cs)"
      by (cases p) auto
    with m have "m \<noteq> []"
      by auto
    from find_url_Some [OF Some] have "re_match URL_REGEX (m @ ?rest) = Some ?rest"
      using m by simp
    from re_sub_match [OF this \<open>m \<noteq> []\<close>, of "\<lambda>m. URL_TAG"]
    have "re_sub URL_REGEX (\<lambda>m. URL_TAG) (c # cs) = URL_TAG @ re_sub URL_REGEX (\<lambda>m. URL_TAG) ?rest"
      using m by simp
    with Some 2(2) show ?thesis
      by (simp add: URL_TAG_def)
  qed
qed

subsection \<open>Repeated characters\<close>

lemma runs_Cons_hd: "\<exists>r rs. runs (x # xs) = (x # r) # rs"
  by (cases "runs xs" rule: runs.cases) (auto split: list.splits)

lemma runs_block:
  "rest = [] \<or> hd rest \<noteq> c \<Longrightarrow> runs (replicate (Suc j) c @ rest) = replicate (Suc j) c # runs rest"
proof (induction j)
  case 0
  show ?case
  proof (cases rest)
    case Nil
    then show ?thesis by simp
  next
    case (Cons y ys)
    with 0 have "y \<noteq> c" by simp
    moreover obtain r rs where "runs (y # ys) = (y # r) # rs"
      using runs_Cons_hd [of y ys] by blast
    ultimately show ?thesis
      using Cons by simp
  qed
next
  case (Suc j)
  then show ?case by simp
qed

lemma run_decomp:
  obtains j rest where "c # cs = replicate (Suc j) c @ rest" "rest = [] \<or> hd rest \<noteq> c"
proof
  have "takeWhile (\<lambda>d. d = c) cs = replicate (length (takeWhile (\<lambda>d. d = c) cs)) c"
    by (metis (mono_tags, lifting) replicate_length_same set_takeWhileD)
  then show "c # cs = replicate (Suc (length (takeWhile (\<lambda>d. d = c) cs))) c @ dropWhile (\<lambda>d. d = c) cs"
    by (metis append_Cons replicate_Suc takeWhile_dropWhile_id)
  show "dropWhile (\<lambda>d. d = c) cs = [] \<or> hd (dropWhile (\<lambda>d. d = c) cs) \<noteq> c"
    using hd_dropWhile [of "\<lambda>d. d = c" cs] by blast
qed

lemma takeWhile_block:
  "rest = [] \<or> hd rest \<noteq> c \<Longrightarrow> takeWhile (\<lambda>d. d = c) (replicate j c @ rest) = replicate j c"
  by (induction j) (auto simp: takeWhile_eq_Nil_iff intro: list.exhaust_sel)

lemma dropWhile_block:
  "rest = [] \<or> hd rest \<noteq> c \<Longrightarrow> dropWhile (\<lambda>d. d = c) (replicate j c @ rest) = rest"
  by (induction j) (auto simp: dropWhile_eq_self_iff)

lemma re_match_REPEAT_block:
  assumes "rest = [] \<or> hd rest \<noteq> c"
  shows "re_match REPEAT_REGEX (replicate (Suc j) c @ rest) =
     (if c \<noteq> CHR 0x0A \<and> 3 \<le> j then Some rest else None)"
  using assms by (simp add: REPEAT_REGEX_def re_match_GroupRep takeWhile_block dropWhile_block)

lemma sub_repeat_long:
  assumes "rest = [] \<or> hd rest \<noteq> c" "c \<noteq> CHR 0x0A" "3 \<le> j"
  shows "re_sub REPEAT_REGEX group1_thrice (replicate (Suc j) c @ rest)
    = [c, c, c] @ re_sub REPEAT_REGEX group1_thrice rest"
proof -
  from assms have "re_match REPEAT_REGEX (replicate (Suc j) c @ rest) = Some rest"
    by (simp only: re_match_REPEAT_block if_True simp_thms)
  from re_sub_match [OF this, of group1_thrice] show ?thesis
    by (simp add: group1_thrice_def)
qed

lemma sub_repeat_short:
  assumes "rest = [] \<or> hd rest \<noteq> c" "c = CHR 0x0A \<or> j \<le> 3"
  shows "re_sub REPEAT_REGEX group1_thrice (replicate j c @ rest)
    = replicate j c @ re_sub REPEAT_REGEX group1_thrice rest"
  using assms(2)
proof (induction j)
  case 0
  show ?case by simp
next
  case (Suc j)
  then have "\<not> (c \<noteq> CHR 0x0A \<and> 3 \<le> j)" by auto
  with assms(1) have "re_match REPEAT_REGEX (replicate (Suc j) c @ rest) = None"
    by (simp only: re_match_REPEAT_block if_False)
  then have "re_match REPEAT_REGEX (c # (replicate j c @ rest)) = None"
    by simp
  from re_sub_no_match [OF this, of group1_thrice] Suc show ?case
    by auto
qed

lemma lower_letters_append: "lower (letters_only_spec (x @ y)) = lower (letters_only_spec x) @ lower (letters_only_spec y)"
  by (simp add: lower_def letters_only_spec_def)

lemma split_from_cong:
  "(\<And>w. split_from w x = split_from w y) \<Longrightarrow> split_from w (p @ x) = split_from w (p @ y)"
  by (induction p arbitrary: w) simp_all

lemma is_space_space: "is_space CHR '' ''"
  by (simp add: is_space_def code_def)

lemma lower_letters_newlines: "lower (letters_only_spec (replicate j CHR 0x0A)) = replicate j CHR '' ''"
  by (simp add: lower_def letters_only_spec_def is_ascii_letter_def lower_char_def code_def)

lemma split_from_leading_spaces:
  "split_from [] (replicate j CHR '' '' @ x) = split_from [] x"
  by (induction j) (simp_all add: is_space_space)

lemma split_from_spaces:
  "split_from w (replicate (Suc j) CHR '' '' @ x) = (if w = [] then [] else [w]) @ split_from [] x"
  by (simp add: is_space_space split_from_leading_spaces)

lemma collapse_runs_block:
  "rest = [] \<or> hd rest \<noteq> c \<Longrightarrow>
   collapse_runs (replicate (Suc j) c @ rest) = replicate (min 3 (Suc j)) c @ collapse_runs rest"
  by (simp add: collapse_runs_def runs_block del: replicate_Suc replicate.simps)

lemma sub_repeat_tokens:
  "split_from w (lower (letters_only_spec (re_sub REPEAT_REGEX group1_thrice s))) = split_from w (lower (letters_only_spec (collapse_runs s)))"
proof (induction s arbitrary: w rule: length_induct)
  case (1 s)
  show ?case
  proof (cases s)
    case Nil
    then show ?thesis by (simp add: collapse_runs_def)
  next
    case (Cons c cs)
    obtain j rest where s: "s = replicate (Suc j) c @ rest" and rest: "rest = [] \<or> hd rest \<noteq> c"
      using run_decomp [of c cs] Cons by metis
    have "length rest < length s" using s by simp
    with 1 have IH: "\<And>w. split_from w (lower (letters_only_spec (re_sub REPEAT_REGEX group1_thrice rest)))
        = split_from w (lower (letters_only_spec (collapse_runs rest)))"
      by blast
    note col = collapse_runs_block [OF rest, of j]
    show ?thesis
    proof (cases "c = CHR 0x0A")
      case True
      have "re_sub REPEAT_REGEX group1_thrice s
          = replicate (Suc j) c @ re_sub REPEAT_REGEX group1_thrice rest"
        unfolding s using rest True by (intro sub_repeat_short) auto
      then have "split_from w (lower (letters_only_spec (re_sub REPEAT_REGEX group1_thrice s)))
          = (if w = [] then [] else [w]) @ split_from [] (lower (letters_only_spec (collapse_runs rest)))"
        unfolding True
        by (simp only: lower_letters_append lower_letters_newlines split_from_spaces IH [of "[]"])
      moreover obtain k where k: "min 3 (Suc j) = Suc k"
        by (cases "min 3 (Suc j)") auto
      have "collapse_runs s = replicate (Suc k) c @ collapse_runs rest"
        unfolding s col k ..
      then have "split_from w (lower (letters_only_spec (collapse_runs s)))
          = (if w = [] then [] else [w]) @ split_from [] (lower (letters_only_spec (collapse_runs rest)))"
        unfolding True
        by (simp only: lower_letters_append lower_letters_newlines split_from_spaces)
      ultimately show ?thesis
        by simp
    next
      case False
      show ?thesis
      proof (cases "3 \<le> j")
        case True
        have "re_sub REPEAT_REGEX group1_thrice s = [c, c, c] @ re_sub REPEAT_REGEX group1_thrice rest"
          unfolding s using rest False True by (rule sub_repeat_long)
        moreover from True have "replicate (min 3 (Suc j)) c = [c, c, c]"
          by (simp add: min_def numeral_3_eq_3)
        ultimately show ?thesis
          unfolding s col
          by (simp only: lower_letters_append split_from_cong [OF IH])
      next
        case False
        then have "re_sub REPEAT_REGEX group1_thrice s
            = replicate (Suc j) c @ re_sub REPEAT_REGEX group1_thrice rest"
          unfolding s using rest by (intro sub_repeat_short) auto
        moreover from False have "min 3 (Suc j) = Suc j"
          by simp
        ultimately show ?thesis
          unfolding s col
          by (simp only: lower_letters_append split_from_cong [OF IH])
      qed
    qed
  qed
qed

subsection \<open>The whole function\<close>

lemma process_tweet_normalize_spec:
  assumes "stopwords_words language = Inr stops"
  shows "process_tweet stopwords_words text language = Inr (normalize_spec stops text)"
  using assms
  by (simp add: process_tweet_def normalize_spec_def Let_def sub_url sub_reply sub_non_letter
      split_def sub_repeat_tokens)

text \<open>
  Claim C3: for every text, and every language for which the stopword corpus answers,
  \<open>process_tweet\<close> returns what the seven steps give in their order: URLs replaced by
  \<open>URL\<close>, \<open>@username\<close> replaced by \<open>REP\<close>, every run of four or more equal characters cut
  down to three, every character that is not an ASCII letter turned into a space, the text
  lower-cased and split at whitespace, the stopwords dropped, the rest joined by single
  spaces.
\<close>

theorem process_tweet_is_the_seven_steps:
  assumes "stopwords_words language = Inr stops"
  shows "process_tweet stopwords_words text language = Inr (normalize_spec stops text)"
  using assms by (rule process_tweet_normalize_spec)

theorem process_tweet_is_the_seven_steps_witness:
  "sample_corpus ''english'' = Inr [''i'', ''this'', ''the'', ''now'']
   \<and> process_tweet sample_corpus ''Check http://x.co now!!! @username soooo good'' ''english''
       = Inr (normalize_spec [''i'', ''this'', ''the'', ''now'']
                ''Check http://x.co now!!! @username soooo good'')
   \<and> normalize_spec [''i'', ''this'', ''the'', ''now'']
         ''Check http://x.co now!!! @username soooo good'' = ''check url rep sooo good''"
proof -
  have h: "sample_corpus ''english'' = Inr [''i'', ''this'', ''the'', ''now'']"
    by (simp add: sample_corpus_def)
  have "normalize_spec [''i'', ''this'', ''the'', ''now'']
      ''Check http://x.co now!!! @username soooo good'' = ''check url rep sooo good''"
    by code_simp
  with process_tweet_is_the_seven_steps
      [of sample_corpus "''english''" "[''i'', ''this'', ''the'', ''now'']"
          "''Check http://x.co now!!! @username soooo good''", OF h] h
  show ?thesis
    by simp
qed

section \<open>Calling \<open>process\<close> first\<close>

lemma map_tweets_normalize_spec:
  "stopwords_words ''english'' = Inr stops \<Longrightarrow>
   map_tweets stopwords_words tweets = Inr (map (normalize_spec stops) tweets)"
  by (induction tweets) (simp_all add: process_tweet_normalize_spec)

text \<open>
  Claim C10: on an object fresh from the constructor, with a stopword corpus that has
  English, \<open>process\<close> raises nothing: it stores the combined document, the normalized
  texts of the posts joined by single spaces, in the object, and returns the list of that
  one document together with six \<open>None\<close>s.
\<close>

theorem process_before_generate_features:
  assumes "Dataset_init timeline_list = Inr d" "timeline d = Some texts"
    and "stopwords_words ''english'' = Inr stops"
  shows "process stopwords_words d =
    Inr (d\<lparr>processed_timeline := Some (join '' '' (map (normalize_spec stops) texts))\<rparr>,
         [join '' '' (map (normalize_spec stops) texts)],
         [None, None, None, None, None, None])"
proof -
  from assms(1) obtain texts' where d: "d = new_dataset texts'"
    by (auto simp: Dataset_init_def split: sum.splits)
  with assms(2) have "texts' = texts"
    by (simp add: new_dataset_def)
  with d assms(3) show ?thesis
    by (simp add: process_def new_dataset_def Let_def
        map_tweets_normalize_spec [of stopwords_words stops texts])
qed

theorem process_before_generate_features_witness:
  "Dataset_init (Some (map post [''I love this!!! :) #great'', ''meh'']))
     = Inr (new_dataset [''I love this!!! :) #great'', ''meh''])
   \<and> timeline (new_dataset [''I love this!!! :) #great'', ''meh''])
       = Some [''I love this!!! :) #great'', ''meh'']
   \<and> sample_corpus ''english'' = Inr [''i'', ''this'', ''the'', ''now'']
   \<and> process sample_corpus (new_dataset [''I love this!!! :) #great'', ''meh''])
       = Inr ((new_dataset [''I love this!!! :) #great'', ''meh''])
                \<lparr>processed_timeline := Some ''love great meh''\<rparr>,
              [''love great meh''],
              [None, None, None, None, None, None])"
proof -
  have h1: "Dataset_init (Some (map post [''I love this!!! :) #great'', ''meh'']))
      = Inr (new_dataset [''I love this!!! :) #great'', ''meh''])"
    by (rule Dataset_init_posts)
  have h2: "timeline (new_dataset [''I love this!!! :) #great'', ''meh''])
      = Some [''I love this!!! :) #great'', ''meh'']"
    by (simp add: new_dataset_def)
  have h3: "sample_corpus ''english'' = Inr [''i'', ''this'', ''the'', ''now'']"
    by (simp add: sample_corpus_def)
  have doc: "join '' '' (map (normalize_spec [''i'', ''this'', ''the'', ''now''])
      [''I love this!!! :) #great'', ''meh'']) = ''love great meh''"
    by code_simp
  from process_before_generate_features
      [of "Some (map post [''I love this!!! :) #great'', ''meh''])"
          "new_dataset [''I love this!!! :) #great'', ''meh'']"
          "[''I love this!!! :) #great'', ''meh'']" sample_corpus
          "[''i'', ''this'', ''the'', ''now'']", OF h1 h2 h3] h1 h2 h3
  show ?thesis
    by (simp only: doc simp_thms)
qed

section \<open>Normalizing twice\<close>

lemma lower_char_letter: "is_ascii_letter c \<Longrightarrow> is_lower_letter (lower_char c)"
proof -
  assume c: "is_ascii_letter c"
  show ?thesis
  proof (cases "code c \<le> 90")
    case True
    with c have "65 \<le> code c" "code c \<le> 90"
      by (auto simp: is_ascii_letter_def)
    then have "lower_char c = char_of (code c + 32)" "(code c + 32) mod 256 = code c + 32"
      by (simp_all add: lower_char_def)
    then have "code (lower_char c) = code c + 32"
      by (simp add: code_def)
    with \<open>65 \<le> code c\<close> \<open>code c \<le> 90\<close> show ?thesis
      by (simp add: is_lower_letter_def)
  next
    case False
    with c have "97 \<le> code c" "code c \<le> 122"
      by (auto simp: is_ascii_letter_def)
    then show ?thesis
      by (simp add: lower_char_def is_lower_letter_def)
  qed
qed

lemma lower_char_space: "lower_char CHR '' '' = CHR '' ''"
  by (simp add: lower_char_def code_def)

lemma lower_letters_chars:
  "c \<in> set (lower (letters_only_spec s)) \<Longrightarrow> is_lower_letter c \<or> c = CHR '' ''"
  by (auto simp: lower_def letters_only_spec_def lower_char_letter lower_char_space)

lemma split_from_tokens:
  assumes "\<forall>c\<in>set w. \<not> is_space c" "t \<in> set (split_from w s)"
  shows "t \<noteq> [] \<and> (\<forall>c\<in>set t. (c \<in> set w \<or> c \<in> set s) \<and> \<not> is_space c)"
  using assms
proof (induction s arbitrary: w)
  case Nil
  then show ?case by (auto split: if_splits)
next
  case (Cons a s)
  show ?case
  proof (cases "is_space a")
    case True
    with Cons.prems(2) have "t = w \<and> w \<noteq> [] \<or> t \<in> set (split_from [] s)"
      by (auto split: if_splits)
    then show ?thesis
    proof
      assume "t = w \<and> w \<noteq> []"
      with Cons.prems(1) show ?thesis by auto
    next
      assume "t \<in> set (split_from [] s)"
      from Cons.IH [of "[]", OF _ this] show ?thesis by auto
    qed
  next
    case False
    with Cons.prems(2) have t: "t \<in> set (split_from (w @ [a]) s)"
      by simp
    from False Cons.prems(1) have "\<forall>c\<in>set (w @ [a]). \<not> is_space c"
      by auto
    from Cons.IH [OF this t] show ?thesis by auto
  qed
qed

lemma set_join: "c \<in> set (join sep ws) \<Longrightarrow> c \<in> set sep \<or> (\<exists>w\<in>set ws. c \<in> set w)"
  by (induction sep ws rule: join.induct) auto

lemma replace_urls_id: "CHR '':'' \<notin> set s \<Longrightarrow> replace_urls s = s"
proof (induction s)
  case Nil
  show ?case by simp
next
  case (Cons c cs)
  have "find (\<lambda>p. prefix p (c # cs)) url_prefixes = None"
  proof -
    have "\<not> prefix p (c # cs)" if "p \<in> set url_prefixes" for p
    proof
      assume "prefix p (c # cs)"
      then have "set p \<subseteq> set (c # cs)"
        by (rule set_mono_prefix)
      moreover from that have "CHR '':'' \<in> set p"
        by (auto simp: url_prefixes_def)
      ultimately show False
        using Cons.prems by blast
    qed
    then show ?thesis
      by (auto simp: find_None_iff)
  qed
  with Cons show ?case by simp
qed

lemma replace_all_id: "hd pat \<notin> set s \<Longrightarrow> replace_all pat rep s = s"
proof (induction s)
  case Nil
  show ?case by simp
next
  case (Cons c cs)
  have "\<not> (pat \<noteq> [] \<and> prefix pat (c # cs))"
  proof
    assume "pat \<noteq> [] \<and> prefix pat (c # cs)"
    then have "hd pat = c"
      by (cases pat) auto
    with Cons.prems show False by simp
  qed
  then have "replace_all pat rep (c # cs) = c # replace_all pat rep cs"
    by (simp only: replace_all.simps if_False)
  with Cons show ?case by simp
qed

lemma runs_no_Nil: "[] \<notin> set (runs s)"
  by (induction s) (auto split: list.splits)

lemma concat_runs: "concat (runs s) = s"
proof (induction s)
  case Nil
  show ?case by simp
next
  case (Cons x xs)
  show ?case
  proof (cases "runs xs")
    case Nil
    with Cons show ?thesis by simp
  next
    case (Cons r rs)
    with runs_no_Nil [of xs] obtain y r' where "r = y # r'"
      by (cases r) auto
    with Cons \<open>concat (runs xs) = xs\<close> show ?thesis by auto
  qed
qed

lemma collapse_runs_id: "list_all (\<lambda>r. length r \<le> 3) (runs s) \<Longrightarrow> collapse_runs s = s"
proof -
  assume "list_all (\<lambda>r. length r \<le> 3) (runs s)"
  then have "map (take 3) (runs s) = runs s"
    by (simp add: list_all_iff map_idI)
  then show ?thesis
    by (simp add: collapse_runs_def concat_runs)
qed

lemma letters_only_spec_id:
  "\<forall>c\<in>set s. is_lower_letter c \<or> c = CHR '' '' \<Longrightarrow> letters_only_spec s = s"
  by (auto simp: letters_only_spec_def is_lower_letter_def is_ascii_letter_def intro!: map_idI)

lemma lower_id: "\<forall>c\<in>set s. is_lower_letter c \<or> c = CHR '' '' \<Longrightarrow> lower s = s"
  by (auto simp: lower_def lower_char_def is_lower_letter_def code_def intro!: map_idI)

lemma split_from_token: "\<forall>c\<in>set t. \<not> is_space c \<Longrightarrow> split_from w (t @ x) = split_from (w @ t) x"
  by (induction t arbitrary: w) simp_all

lemma split_join:
  "\<forall>t\<in>set ws. t \<noteq> [] \<and> (\<forall>c\<in>set t. \<not> is_space c) \<Longrightarrow> split_from [] (join '' '' ws) = ws"
proof (induction "'' ''" ws rule: join.induct)
  case 1
  show ?case by simp
next
  case (2 x)
  then have "split_from [] (x @ []) = split_from ([] @ x) []"
    by (intro split_from_token) simp
  with 2 show ?case by simp
next
  case (3 x y ys)
  then have "split_from [] (x @ ('' '' @ join '' '' (y # ys)))
      = split_from ([] @ x) ('' '' @ join '' '' (y # ys))"
    by (intro split_from_token) simp
  with 3 show ?case
    by (simp add: is_space_space)
qed

lemma normalize_spec_tokens:
  obtains ws where "normalize_spec stops t = join '' '' ws"
    and "\<forall>w\<in>set ws. w \<noteq> [] \<and> (\<forall>c\<in>set w. is_lower_letter c \<and> \<not> is_space c)"
    and "filter (\<lambda>w. w \<notin> set stops) ws = ws"
proof
  define u where "u = collapse_runs (replace_all ''@username'' ''REP'' (replace_urls t))"
  define ws where "ws = filter (\<lambda>w. w \<notin> set stops) (split (lower (letters_only_spec u)))"
  show "normalize_spec stops t = join '' '' ws"
    by (simp add: normalize_spec_def ws_def u_def)
  show "filter (\<lambda>w. w \<notin> set stops) ws = ws"
    by (simp add: ws_def)
  show "\<forall>w\<in>set ws. w \<noteq> [] \<and> (\<forall>c\<in>set w. is_lower_letter c \<and> \<not> is_space c)"
  proof
    fix w assume "w \<in> set ws"
    then have w: "w \<in> set (split_from [] (lower (letters_only_spec u)))"
      by (simp add: ws_def split_def)
    from split_from_tokens [OF _ w]
    have "w \<noteq> []" and *: "\<forall>c\<in>set w. c \<in> set (lower (letters_only_spec u)) \<and> \<not> is_space c"
      by auto
    have "is_lower_letter c \<and> \<not> is_space c" if "c \<in> set w" for c
      using * that lower_letters_chars [of c u] is_space_space by auto
    with \<open>w \<noteq> []\<close> show "w \<noteq> [] \<and> (\<forall>c\<in>set w. is_lower_letter c \<and> \<not> is_space c)"
      by blast
  qed
qed

lemma normalized_chars:
  assumes "c \<in> set (normalize_spec stops t)"
  shows "is_lower_letter c \<or> c = CHR '' ''"
proof -
  obtain ws where ws: "normalize_spec stops t = join '' '' ws"
    "\<forall>w\<in>set ws. w \<noteq> [] \<and> (\<forall>c\<in>set w. is_lower_letter c \<and> \<not> is_space c)"
    by (rule normalize_spec_tokens)
  from assms set_join [of c "'' ''" ws] ws show ?thesis
    by auto
qed

lemma normalized_no_tags:
  assumes "y = normalize_spec stops t"
  shows "replace_all ''@username'' ''REP'' (replace_urls y) = y"
proof -
  have "CHR '':'' \<notin> set y" "hd ''@username'' \<notin> set y"
    using normalized_chars [of "CHR '':''" stops t] normalized_chars [of "CHR ''@''" stops t] assms
    by (auto simp: is_lower_letter_def code_def)
  then show ?thesis
    using replace_urls_id [of y] replace_all_id [of "''@username''" y "''REP''"] by simp
qed

lemma normalize_spec_fixpoint:
  assumes "y = normalize_spec stops t" "list_all (\<lambda>r. length r \<le> 3) (runs y)"
  shows "normalize_spec stops y = y"
proof -
  obtain ws where ws: "normalize_spec stops t = join '' '' ws"
    "\<forall>w\<in>set ws. w \<noteq> [] \<and> (\<forall>c\<in>set w. is_lower_letter c \<and> \<not> is_space c)"
    "filter (\<lambda>w. w \<notin> set stops) ws = ws"
    by (rule normalize_spec_tokens)
  have "replace_all ''@username'' ''REP'' (replace_urls y) = y"
    using assms(1) by (rule normalized_no_tags)
  moreover have "collapse_runs y = y"
    using assms(2) by (rule collapse_runs_id)
  moreover have "lower (letters_only_spec y) = y"
    using normalized_chars [of _ stops t] assms(1)
    by (simp add: letters_only_spec_id lower_id)
  moreover have "split y = ws"
    unfolding assms(1) ws(1) split_def using ws(2) by (intro split_join) blast
  ultimately show ?thesis
    using ws(1,3) assms(1) by (simp add: normalize_spec_def)
qed

lemma length_collapse_le: "length (concat (map (take 3) rs)) \<le> length (concat rs)"
  by (induction rs) auto

lemma length_collapse_less:
  "\<not> list_all (\<lambda>r. length r \<le> 3) rs \<Longrightarrow> length (concat (map (take 3) rs)) < length (concat rs)"
proof (induction rs)
  case Nil
  then show ?case by simp
next
  case (Cons r rs)
  show ?case
  proof (cases "length r \<le> 3")
    case True
    with Cons show ?thesis by simp
  next
    case False
    with length_collapse_le [of rs] show ?thesis by simp
  qed
qed

lemma length_collapse_runs:
  "\<not> list_all (\<lambda>r. length r \<le> 3) (runs s) \<Longrightarrow> length (collapse_runs s) < length s"
  using length_collapse_less [of "runs s"] by (simp add: collapse_runs_def concat_runs)

lemma length_join_Cons:
  "length (join sep (x # xs)) = length x + (if xs = [] then 0 else length sep + length (join sep xs))"
  by (cases xs) simp_all

lemma length_join_filter: "length (join sep (filter P ws)) \<le> length (join sep ws)"
proof (induction ws)
  case Nil
  show ?case by simp
next
  case (Cons w ws)
  show ?case
  proof (cases "P w")
    case True
    with Cons show ?thesis
      by (auto simp: length_join_Cons)
  next
    case False
    with Cons show ?thesis
      by (simp add: length_join_Cons)
  qed
qed

lemma length_join_split_from: "length (join '' '' (split_from w u)) \<le> length w + length u"
proof (induction u arbitrary: w)
  case Nil
  show ?case by simp
next
  case (Cons c cs)
  show ?case
  proof (cases "is_space c")
    case True
    from Cons [of "[]"] show ?thesis
      using True by (simp add: length_join_Cons)
  next
    case False
    from Cons [of "w @ [c]"] show ?thesis
      using False by simp
  qed
qed

lemma length_normalize_spec:
  "length (normalize_spec stops t)
     \<le> length (collapse_runs (replace_all ''@username'' ''REP'' (replace_urls t)))"
proof -
  define u where "u = lower (letters_only_spec (collapse_runs
    (replace_all ''@username'' ''REP'' (replace_urls t))))"
  have "length (normalize_spec stops t) \<le> length (join '' '' (split u))"
    unfolding normalize_spec_def u_def by (rule length_join_filter)
  also have "\<dots> \<le> length u"
    using length_join_split_from [of "[]" u] by (simp add: split_def)
  also have "\<dots> = length (collapse_runs (replace_all ''@username'' ''REP'' (replace_urls t)))"
    by (simp add: u_def lower_def letters_only_spec_def)
  finally show ?thesis .
qed

lemma normalize_spec_fixpoint_iff:
  assumes "y = normalize_spec stops t"
  shows "normalize_spec stops y = y \<longleftrightarrow> list_all (\<lambda>r. length r \<le> 3) (runs y)"
proof
  assume "list_all (\<lambda>r. length r \<le> 3) (runs y)"
  with assms show "normalize_spec stops y = y"
    by (rule normalize_spec_fixpoint)
next
  assume fp: "normalize_spec stops y = y"
  show "list_all (\<lambda>r. length r \<le> 3) (runs y)"
  proof (rule ccontr)
    assume "\<not> list_all (\<lambda>r. length r \<le> 3) (runs y)"
    then have "length (collapse_runs y) < length y"
      by (rule length_collapse_runs)
    moreover have "length (normalize_spec stops y) \<le> length (collapse_runs y)"
      using length_normalize_spec [of stops y] normalized_no_tags [OF assms] by simp
    ultimately show False
      using fp by simp
  qed
qed

text \<open>
  Claim C7 as stated fails: \<open>aaAA\<close> has no run of four equal characters, so nothing is cut;
  lower-casing then makes the run \<open>aaaa\<close>, which the second pass cuts down to \<open>aaa\<close>.
\<close>

theorem normalize_twice_differs:
  "process_tweet sample_corpus ''aaAA'' ''english'' = Inr ''aaaa''
   \<and> process_tweet sample_corpus ''aaaa'' ''english'' = Inr ''aaa''"
  by code_simp

text \<open>
  Claim C7, amended: for a fixed language and every text \<open>t\<close>, normalizing the normalized
  text of \<open>t\<close> again returns it unchanged exactly when it has no run of four or more equal
  characters.
\<close>

theorem normalize_idempotent_iff_no_long_run:
  assumes "process_tweet stopwords_words t language = Inr y"
  shows "process_tweet stopwords_words y language = Inr y
    \<longleftrightarrow> list_all (\<lambda>r. length r \<le> 3) (runs y)"
proof -
  from assms obtain stops where stops: "stopwords_words language = Inr stops"
    by (cases "stopwords_words language") (auto simp: process_tweet_def Let_def)
  with assms have "y = normalize_spec stops t"
    by (simp add: process_tweet_normalize_spec)
  from normalize_spec_fixpoint_iff [OF this] show ?thesis
    by (simp add: process_tweet_normalize_spec [of stopwords_words language stops, OF stops])
qed

theorem normalize_idempotent_iff_no_long_run_witness:
  "process_tweet sample_corpus ''Check http://x.co now!!! @username soooo good'' ''english''
     = Inr ''check url rep sooo good''
   \<and> list_all (\<lambda>r. length r \<le> 3) (runs ''check url rep sooo good'')
   \<and> process_tweet sample_corpus ''check url rep sooo good'' ''english''
       = Inr ''check url rep sooo good''"
proof -
  have h1: "process_tweet sample_corpus ''Check http://x.co now!!! @username soooo good''
      ''english'' = Inr ''check url rep sooo good''"
    by code_simp
  have h2: "list_all (\<lambda>r. length r \<le> 3) (runs ''check url rep sooo good'')"
    by code_simp
  from normalize_idempotent_iff_no_long_run
      [of sample_corpus "''Check http://x.co now!!! @username soooo good''" "''english''"
          "''check url rep sooo good''", OF h1] h1 h2
  show ?thesis
    by simp
qed

end
